theory Spec2Isabelle
  imports Complex_Main
begin

section \<open>The pausable data pipeline of ohlc/candles/app.py\<close>

text \<open>
  The module defines \<^verbatim>\<open>DataSource\<close> (a generator, a rate, a sink, a \<^verbatim>\<open>paused\<close>
  flag and the handle of the background thread running \<^verbatim>\<open>loop\<close>) and \<^verbatim>\<open>CandleApp\<close>,
  the sink the application binds to it. \<^verbatim>\<open>pause\<close> joins the background thread and
  \<^verbatim>\<open>unpause\<close> starts one, so the methods are modelled as programs whose statements
  are the atomic steps of a transition system: one controller (the caller of
  \<^verbatim>\<open>pause\<close>, \<^verbatim>\<open>unpause\<close>, \<^verbatim>\<open>next\<close>) and any number of loop threads, interleaved by
  a schedule. Program locations carry the line numbers of app.py.
\<close>

subsection \<open>Exceptions, generators, sinks\<close>

datatype exn =
  ValueError | StopIteration | TypeError | AttributeError | RuntimeError | OverflowError | OtherError

text \<open>
  A Python generator object: \<^verbatim>\<open>next(g)\<close> yields the element at the cursor and
  advances, or raises StopIteration when there is none (and keeps raising it).
  \<open>items\<close> is the sequence the generator would yield, \<open>pos\<close> the cursor.
\<close>

record 'v gen =
  items :: "nat \<Rightarrow> 'v option"
  pos :: nat

definition gen_next :: "'v gen \<Rightarrow> exn + ('v \<times> 'v gen)" where
  "gen_next g =
     (case items g (pos g) of
        None \<Rightarrow> Inl StopIteration
      | Some v \<Rightarrow> Inr (v, g\<lparr>pos := Suc (pos g)\<rparr>))"

text \<open>
  A sink is any object with a \<^verbatim>\<open>send\<close> method: its state and what \<^verbatim>\<open>send\<close> does to
  it, namely the exception raised (if any) and the state left behind.
\<close>

record ('v, 'k) sink_obj =
  sink_self :: 'k
  sink_send :: "'k \<Rightarrow> 'v \<Rightarrow> exn option \<times> 'k"

subsection \<open>DataSource: fields, constructor, next\<close>

record ('v, 'k) DataSource =
  source_gen :: "'v gen option"
  data_rate :: real
  thread :: "nat option"
  paused :: bool
  sink :: "('v, 'k) sink_obj option"

text \<open>\<^verbatim>\<open>__init__\<close>, lines 54-58.\<close>

definition init :: "'v gen option \<Rightarrow> real \<Rightarrow> ('v, 'k) sink_obj option \<Rightarrow> ('v, 'k) DataSource" where
  "init g r k = \<lparr>source_gen = g, data_rate = r, thread = None, paused = True, sink = k\<rparr>"

text \<open>
  \<^verbatim>\<open>next\<close>, lines 78-79 (\<open>next\<close> is a keyword here, hence the suffix). The result is
  the exception raised by the generator, or the value returned: \<open>None\<close> is Python's
  \<^verbatim>\<open>None\<close>, returned when no generator is bound.
\<close>

definition next_ds :: "('v, 'k) DataSource \<Rightarrow> (exn + 'v option) \<times> ('v, 'k) DataSource" where
  "next_ds d =
     (case source_gen d of
        None \<Rightarrow> (Inr None, d)
      | Some g \<Rightarrow>
          (case gen_next g of
             Inl e \<Rightarrow> (Inl e, d)
           | Inr (v, g') \<Rightarrow> (Inr (Some v), d\<lparr>source_gen := Some g'\<rparr>)))"

text \<open>Successive calls of \<^verbatim>\<open>next\<close>: the results in call order, and the final state.
  A call that raises ends the sequence, as the exception would.\<close>

fun nexts :: "nat \<Rightarrow> ('v, 'k) DataSource \<Rightarrow> (exn + 'v option) list \<times> ('v, 'k) DataSource" where
  "nexts 0 d = ([], d)"
| "nexts (Suc n) d =
     (case next_ds d of
        (Inl e, d') \<Rightarrow> ([Inl e], d')
      | (Inr r, d') \<Rightarrow> (Inr r # fst (nexts n d'), snd (nexts n d')))"

subsection \<open>The interleaving model of pause, unpause and loop\<close>

datatype call = Pause | Unpause | Next

text \<open>
  What an observer sees: the controller entering and leaving a call, a loop thread
  calling \<^verbatim>\<open>sink.send(v)\<close> (a delivery), sleeping, and logging the warning of line 88.
\<close>

datatype 'v event = Call call | Return call | Send nat 'v | Sleep nat real | Warn nat

text \<open>
  Locations of a loop thread. \<open>Unstarted\<close>: the Thread object does not exist or was
  not started yet; \<open>L83\<close> to \<open>L91\<close>: about to execute that line of \<^verbatim>\<open>loop\<close>;
  \<open>Exited\<close>: \<^verbatim>\<open>loop\<close> returned; \<open>Died e\<close>: \<^verbatim>\<open>loop\<close> raised \<open>e\<close>, which ended the thread.
\<close>

datatype lpc = Unstarted | L83 | L84 | L85 | L86 | L87 | L89 | L90 | L91 | Exited | Died exn

record 'v lthread =
  lpc :: lpc
  lt :: "nat option"
  lv :: "'v option"

text \<open>
  Locations of the controller. \<open>P61 u\<close> to \<open>P65 u\<close>: about to execute that line of
  \<^verbatim>\<open>pause\<close>, where \<open>u\<close> tells that \<^verbatim>\<open>pause\<close> was called by line 68 of \<^verbatim>\<open>unpause\<close>;
  \<open>U69\<close> (lines 69-70) and \<open>U71\<close>: in \<^verbatim>\<open>unpause\<close>; \<open>Crashed e\<close>: a call raised \<open>e\<close>.
\<close>

datatype cpc = Idle | P61 bool | P62 bool | P63 bool | P64 bool | P65 bool | U69 | U71 | Crashed exn

record ('v, 'k) sys =
  ds :: "('v, 'k) DataSource"
  cpc :: cpc
  ct :: "nat option"
  prog :: "call list"
  rets :: "'v option list"
  thr :: "nat \<Rightarrow> 'v lthread"
  spawned :: nat
  evs :: "'v event list"

definition terminated :: "lpc \<Rightarrow> bool" where
  "terminated p = (case p of Exited \<Rightarrow> True | Died e \<Rightarrow> True | _ \<Rightarrow> False)"

text \<open>Leaving \<^verbatim>\<open>pause\<close>: back to line 69 of \<^verbatim>\<open>unpause\<close>, or to the caller.\<close>

definition pause_return :: "bool \<Rightarrow> ('v, 'k) sys \<Rightarrow> ('v, 'k) sys" where
  "pause_return u s =
     (if u then s\<lparr>cpc := U69\<rparr> else s\<lparr>cpc := Idle, evs := evs s @ [Return Pause]\<rparr>)"

text \<open>
  One statement of the controller; \<open>None\<close> when it cannot move (no call left, crashed,
  or blocked in \<^verbatim>\<open>t.join()\<close> on a thread that is still running). Joining \<^verbatim>\<open>None\<close>
  raises AttributeError; joining a thread that was never started, or starting one
  twice, raises RuntimeError.
\<close>

definition cstep :: "('v, 'k) sys \<Rightarrow> ('v, 'k) sys option" where
  "cstep s =
     (case cpc s of
        Idle \<Rightarrow>
          (case prog s of
             [] \<Rightarrow> None
           | Pause # cs \<Rightarrow> Some (s\<lparr>cpc := P61 False, prog := cs, evs := evs s @ [Call Pause]\<rparr>)
           | Unpause # cs \<Rightarrow> Some (s\<lparr>cpc := P61 True, prog := cs, evs := evs s @ [Call Unpause]\<rparr>)
           | Next # cs \<Rightarrow>
               (case next_ds (ds s) of
                  (Inl e, d) \<Rightarrow>
                    Some (s\<lparr>ds := d, cpc := Crashed e, prog := cs, evs := evs s @ [Call Next]\<rparr>)
                | (Inr r, d) \<Rightarrow>
                    Some (s\<lparr>ds := d, prog := cs, rets := rets s @ [r],
                            evs := evs s @ [Call Next, Return Next]\<rparr>)))
      | P61 u \<Rightarrow> Some (if paused (ds s) then pause_return u s else s\<lparr>cpc := P62 u\<rparr>)
      | P62 u \<Rightarrow> Some (s\<lparr>ds := (ds s)\<lparr>paused := True\<rparr>, cpc := P63 u\<rparr>)
      | P63 u \<Rightarrow> Some (s\<lparr>ct := thread (ds s), cpc := P64 u\<rparr>)
      | P64 u \<Rightarrow>
          (case ct s of
             None \<Rightarrow> Some (s\<lparr>cpc := Crashed AttributeError\<rparr>)
           | Some T \<Rightarrow>
               if lpc (thr s T) = Unstarted then Some (s\<lparr>cpc := Crashed RuntimeError\<rparr>)
               else if terminated (lpc (thr s T)) then Some (s\<lparr>cpc := P65 u\<rparr>)
               else None)
      | P65 u \<Rightarrow> Some (pause_return u (s\<lparr>ds := (ds s)\<lparr>thread := None\<rparr>\<rparr>))
      | U69 \<Rightarrow>
          Some (s\<lparr>ds := (ds s)\<lparr>thread := Some (spawned s)\<rparr>, ct := Some (spawned s),
                  spawned := Suc (spawned s), cpc := U71\<rparr>)
      | U71 \<Rightarrow>
          (case ct s of
             None \<Rightarrow> None
           | Some T \<Rightarrow>
               if lpc (thr s T) = Unstarted
               then Some (s\<lparr>thr := (thr s)(T := (thr s T)\<lparr>lpc := L83\<rparr>), cpc := Idle,
                            evs := evs s @ [Return Unpause]\<rparr>)
               else Some (s\<lparr>cpc := Crashed RuntimeError\<rparr>))
      | Crashed e \<Rightarrow> None)"

text \<open>Thread \<open>T\<close> moves to location \<open>p\<close>.\<close>

definition goto :: "nat \<Rightarrow> lpc \<Rightarrow> ('v, 'k) sys \<Rightarrow> ('v, 'k) sys" where
  "goto T p s = s\<lparr>thr := (thr s)(T := (thr s T)\<lparr>lpc := p\<rparr>)\<rparr>"

text \<open>
  Line 91 evaluates \<^verbatim>\<open>1.0 / float(self.data_rate)\<close> and passes it to \<^verbatim>\<open>time.sleep\<close>.
  Python's floating-point division and \<^verbatim>\<open>time.sleep\<close> are not code of this module,
  so they are taken as given. The field \<open>data_rate\<close> is the value of a Python float;
  \<open>recip x\<close> is the value of the float \<^verbatim>\<open>1.0 / float(x)\<close> for a rate \<open>x\<close> other than 0
  (the double next to the quotient, which need not be the exact \<open>1 / x\<close>), or \<open>None\<close>
  when that float is infinite; \<open>sleep_error q\<close> is the exception \<^verbatim>\<open>time.sleep\<close>
  raises on the finite length \<open>q\<close> (ValueError on a negative one, OverflowError on one
  too large to convert), or \<open>None\<close> when it sleeps. On an infinite length
  \<^verbatim>\<open>time.sleep\<close> raises OverflowError.
\<close>

record platform =
  recip :: "real \<Rightarrow> real option"
  sleep_error :: "real \<Rightarrow> exn option"

text \<open>
  One statement of loop thread \<open>T\<close>; \<open>None\<close> when the thread is not running.
  \<^verbatim>\<open>next(None)\<close> raises TypeError; \<^verbatim>\<open>None.send\<close> raises AttributeError; an
  exception of \<^verbatim>\<open>time.sleep\<close> ends the thread like any other.
\<close>

definition lstep :: "platform \<Rightarrow> nat \<Rightarrow> ('v, 'k) sys \<Rightarrow> ('v, 'k) sys option" where
  "lstep pf T s =
     (case lpc (thr s T) of
        Unstarted \<Rightarrow> None
      | L83 \<Rightarrow> Some (if sink (ds s) = None then goto T (Died ValueError) s else goto T L84 s)
      | L84 \<Rightarrow> Some (goto T L85 (s\<lparr>ds := (ds s)\<lparr>paused := False\<rparr>\<rparr>))
      | L85 \<Rightarrow> Some (s\<lparr>thr := (thr s)(T := (thr s T)\<lparr>lpc := L86, lt := thread (ds s)\<rparr>)\<rparr>)
      | L86 \<Rightarrow> Some (if \<not> paused (ds s) then goto T L87 s else goto T Exited s)
      | L87 \<Rightarrow>
          Some (if lt (thr s T) \<noteq> thread (ds s)
                then goto T Exited (s\<lparr>evs := evs s @ [Warn T]\<rparr>)
                else goto T L89 s)
      | L89 \<Rightarrow>
          (case source_gen (ds s) of
             None \<Rightarrow> Some (goto T (Died TypeError) s)
           | Some g \<Rightarrow>
               (case gen_next g of
                  Inl e \<Rightarrow> Some (goto T (Died e) s)
                | Inr (v, g') \<Rightarrow>
                    Some (s\<lparr>ds := (ds s)\<lparr>source_gen := Some g'\<rparr>,
                            thr := (thr s)(T := (thr s T)\<lparr>lpc := L90, lv := Some v\<rparr>)\<rparr>)))
      | L90 \<Rightarrow>
          (case lv (thr s T) of
             None \<Rightarrow> None
           | Some v \<Rightarrow>
               (case sink (ds s) of
                  None \<Rightarrow> Some (goto T (Died AttributeError) s)
                | Some k \<Rightarrow>
                    (case sink_send k (sink_self k) v of
                       (r, k') \<Rightarrow>
                         Some (goto T (case r of None \<Rightarrow> L91 | Some e \<Rightarrow> Died e)
                                 (s\<lparr>ds := (ds s)\<lparr>sink := Some (k\<lparr>sink_self := k'\<rparr>)\<rparr>,
                                     evs := evs s @ [Send T v]\<rparr>)))))
      | L91 \<Rightarrow>
          Some (if data_rate (ds s) \<noteq> 0
                then (case recip pf (data_rate (ds s)) of
                        None \<Rightarrow> goto T (Died OverflowError) s
                      | Some q \<Rightarrow>
                          (case sleep_error pf q of
                             Some e \<Rightarrow> goto T (Died e) s
                           | None \<Rightarrow> goto T L86 (s\<lparr>evs := evs s @ [Sleep T q]\<rparr>)))
                else goto T L86 s)
      | Exited \<Rightarrow> None
      | Died e \<Rightarrow> None)"

datatype actor = Ctl | Thr nat

definition step :: "platform \<Rightarrow> actor \<Rightarrow> ('v, 'k) sys \<Rightarrow> ('v, 'k) sys option" where
  "step pf a s = (case a of Ctl \<Rightarrow> cstep s | Thr T \<Rightarrow> lstep pf T s)"

text \<open>A schedule names who moves next; it is not executable (\<open>None\<close>) when it
  schedules an actor that cannot move.\<close>

fun run :: "platform \<Rightarrow> actor list \<Rightarrow> ('v, 'k) sys \<Rightarrow> ('v, 'k) sys option" where
  "run pf [] s = Some s"
| "run pf (a # as) s = (case step pf a s of None \<Rightarrow> None | Some s' \<Rightarrow> run pf as s')"

text \<open>The system right after construction: the controller has the calls \<open>cs\<close> to make,
  no thread exists, nothing was observed.\<close>

definition boot :: "('v, 'k) DataSource \<Rightarrow> call list \<Rightarrow> ('v, 'k) sys" where
  "boot d cs =
     \<lparr>ds = d, cpc = Idle, ct = None, prog = cs, rets = [],
      thr = (\<lambda>T. \<lparr>lpc = Unstarted, lt = None, lv = None\<rparr>), spawned = 0, evs = []\<rparr>"

text \<open>The deliveries among the events, in order: who delivered what.\<close>

fun sends :: "'v event list \<Rightarrow> (nat \<times> 'v) list" where
  "sends [] = []"
| "sends (Send T v # es) = (T, v) # sends es"
| "sends (e # es) = sends es"

subsection \<open>CandleApp.send, the sink of the application\<close>

text \<open>
  \<^verbatim>\<open>CandleChart\<close> lives in another module, so its two methods used by \<^verbatim>\<open>send\<close> are
  parameters: \<open>add_ohlc\<close> may raise and leaves some chart behind, \<open>format\<close> raises
  or yields the lines, each a string or a list of markup pairs.
\<close>

datatype line = StrLine string | MarkupLine "(string \<times> string) list"

record ('v, 'c) chart_ops =
  add_ohlc :: "'c \<Rightarrow> 'v \<Rightarrow> exn option \<times> 'c"
  format :: "'c \<Rightarrow> exn + line list"

record 'c CandleApp =
  chart :: 'c
  shown :: "(string \<times> string) list list"
  errors_logged :: nat

fun is_str :: "line \<Rightarrow> bool" where
  "is_str (StrLine x) = True"
| "is_str (MarkupLine m) = False"

fun markup :: "line \<Rightarrow> (string \<times> string) list" where
  "markup (StrLine x) = []"
| "markup (MarkupLine m) = m"

text \<open>
  The \<^verbatim>\<open>try\<close> block, lines 148-154: the exception that leaves it (if any) and the
  state at that point. Line 154 adds a list to each line, a TypeError on a string.
\<close>

definition send_try :: "('v, 'c) chart_ops \<Rightarrow> 'c CandleApp \<Rightarrow> 'v option \<Rightarrow> exn option \<times> 'c CandleApp" where
  "send_try ops app ohlc =
     (case (case ohlc of None \<Rightarrow> (None, chart app) | Some v \<Rightarrow> add_ohlc ops (chart app) v) of
        (Some e, c) \<Rightarrow> (Some e, app\<lparr>chart := c\<rparr>)
      | (None, c) \<Rightarrow>
          (case format ops c of
             Inl e \<Rightarrow> (Some e, app\<lparr>chart := c\<rparr>)
           | Inr lines \<Rightarrow>
               if lines \<noteq> [] \<and> is_str (hd lines) then (Some ValueError, app\<lparr>chart := c\<rparr>)
               else if list_ex is_str lines then (Some TypeError, app\<lparr>chart := c\<rparr>)
               else (None, app\<lparr>chart := c,
                                shown := map (\<lambda>l. markup l @ [([], [CHR 0x0A])]) lines\<rparr>)))"

text \<open>
  The handler, lines 155-156: the bare \<^verbatim>\<open>except\<close> takes any exception and logs it
  with \<^verbatim>\<open>log.error\<close>; nothing is raised again.
\<close>

definition log_error :: "exn \<Rightarrow> 'c CandleApp \<Rightarrow> exn option \<times> 'c CandleApp" where
  "log_error e app = (None, app\<lparr>errors_logged := Suc (errors_logged app)\<rparr>)"

text \<open>
  \<^verbatim>\<open>send\<close>, lines 146-156: the \<^verbatim>\<open>try\<close> block, and the handler on whatever left it.
  The result is the exception that leaves \<^verbatim>\<open>send\<close> (if any) and the state.
\<close>

definition send :: "('v, 'c) chart_ops \<Rightarrow> 'c CandleApp \<Rightarrow> 'v option \<Rightarrow> exn option \<times> 'c CandleApp" where
  "send ops app ohlc =
     (case send_try ops app ohlc of
        (None, app') \<Rightarrow> (None, app')
      | (Some e, app') \<Rightarrow> log_error e app')"

text \<open>The application as the sink of its DataSource (line 119): the loop calls
  \<^verbatim>\<open>send\<close> with the value pulled at line 89.\<close>

definition CandleApp_sink :: "('v, 'c) chart_ops \<Rightarrow> 'c CandleApp \<Rightarrow> ('v, 'c CandleApp) sink_obj" where
  "CandleApp_sink ops app = \<lparr>sink_self = app, sink_send = (\<lambda>a v. send ops a (Some v))\<rparr>"



subsection \<open>Test fixtures\<close>

text \<open>The generator yielding 1, 2, 3, ... and the one yielding 1, 2 and no more.\<close>

definition counter :: "int gen" where
  "counter = \<lparr>items = (\<lambda>i. Some (int i + 1)), pos = 0\<rparr>"

definition two_values :: "int gen" where
  "two_values = \<lparr>items = (\<lambda>i. if i < 2 then Some (int i + 1) else None), pos = 0\<rparr>"

text \<open>A sink that records what it receives, and one whose \<^verbatim>\<open>send\<close> raises on the value 2.\<close>

definition recorder :: "(int, int list) sink_obj" where
  "recorder = \<lparr>sink_self = [], sink_send = (\<lambda>k v. (None, k @ [v]))\<rparr>"


text \<open>
  CPython 3 on IEEE doubles, as far as the scenarios need it: \<^verbatim>\<open>time.sleep\<close> converts
  the length to a signed 64-bit count of nanoseconds and raises OverflowError when it
  does not fit, then ValueError when it is negative. The quotient is taken exact,
  which is what the doubles give at the rates used below (0, 2 and \<open>1 / 2 ^ 34\<close>, whose
  reciprocals are powers of two); at the rate 10 of other scenarios line 91 is never
  reached.
\<close>

definition cpython :: platform where
  "cpython =
     \<lparr>recip = (\<lambda>x. Some (1 / x)),
      sleep_error =
        (\<lambda>q. if q * 10 ^ 9 < - (2 ^ 63) \<or> 2 ^ 63 \<le> q * 10 ^ 9 then Some OverflowError
             else if q < 0 then Some ValueError
             else None)\<rparr>"

text \<open>A chart that keeps the values added, refuses the value 2 and formats to no line.\<close>

definition picky_chart :: "(int, int list) chart_ops" where
  "picky_chart =
     \<lparr>add_ohlc = (\<lambda>c v. if v = 2 then (Some OtherError, c) else (None, c @ [v])),
      format = (\<lambda>c. Inr [])\<rparr>"

subsection \<open>Predicates used in the proofs\<close>

text \<open>The controller is inside \<^verbatim>\<open>unpause\<close> (including its call of \<^verbatim>\<open>pause\<close>).\<close>

definition in_unpause :: "cpc \<Rightarrow> bool" where
  "in_unpause c =
     (c = U69 \<or> c = U71 \<or> c = P61 True \<or> c = P62 True \<or> c = P63 True \<or> c = P64 True \<or>
      c = P65 True)"

text \<open>The thread has executed line 84.\<close>

definition past84 :: "lpc \<Rightarrow> bool" where
  "past84 p = (p \<noteq> Unstarted \<and> p \<noteq> L83 \<and> p \<noteq> L84)"

text \<open>
  Invariant of every run of the calls \<open>cs\<close>: threads exist only when \<^verbatim>\<open>unpause\<close> is
  among the calls, and the flag is cleared only once a thread has executed line 84.
\<close>

definition via_unpause :: "call list \<Rightarrow> ('v, 'k) sys \<Rightarrow> bool" where
  "via_unpause cs s =
     (set (prog s) \<subseteq> set cs \<and>
      (in_unpause (cpc s) \<longrightarrow> Unpause \<in> set cs) \<and>
      (\<forall>T. lpc (thr s T) \<noteq> Unstarted \<longrightarrow> Unpause \<in> set cs) \<and>
      (\<not> paused (ds s) \<longrightarrow> (\<exists>T. past84 (lpc (thr s T)))))"

text \<open>What \<open>f\<close> reads in the state a schedule leads to; the location of a thread.\<close>

definition after ::
  "platform \<Rightarrow> actor list \<Rightarrow> ('v, 'k) sys \<Rightarrow> (('v, 'k) sys \<Rightarrow> 'a) \<Rightarrow> 'a option" where
  "after pf sched s f = map_option f (run pf sched s)"

definition pc_of :: "nat \<Rightarrow> ('v, 'k) sys \<Rightarrow> lpc" where
  "pc_of T s = lpc (thr s T)"

text \<open>
  Invariant of every run that starts paused with no sink: the flag stays set, nothing
  is delivered, and a loop thread gets no further than the check of line 83.
\<close>

definition sinkless :: "('v, 'k) sys \<Rightarrow> bool" where
  "sinkless s =
     (sink (ds s) = None \<and> paused (ds s) \<and> sends (evs s) = [] \<and>
      (\<forall>T. lpc (thr s T) = Unstarted \<or> lpc (thr s T) = L83 \<or> lpc (thr s T) = Died ValueError) \<and>
      (\<forall>T. spawned s \<le> T \<longrightarrow> lpc (thr s T) = Unstarted) \<and>
      (cpc s = U71 \<longrightarrow> (\<exists>T. ct s = Some T \<and> T < spawned s \<and> lpc (thr s T) = Unstarted)) \<and>
      (cpc s = Idle \<or> cpc s = P61 False \<or> cpc s = P61 True \<or> cpc s = U69 \<or> cpc s = U71 \<or>
       cpc s = Crashed StopIteration))"

text \<open>
  Thread \<open>T\<close> is at the head of the \<^verbatim>\<open>while\<close> loop, the flag is clear and the handle
  it read at line 85 is the current one: the next iteration will run.
\<close>

definition in_loop :: "nat \<Rightarrow> ('v, 'k) sys \<Rightarrow> bool" where
  "in_loop T s = (lpc (thr s T) = L86 \<and> \<not> paused (ds s) \<and> lt (thr s T) = thread (ds s))"

text \<open>Line 91 does not raise at rate \<open>r\<close>: the rate is 0, or the float quotient is
  finite and a length \<^verbatim>\<open>time.sleep\<close> accepts.\<close>

definition sleepable :: "platform \<Rightarrow> real \<Rightarrow> bool" where
  "sleepable pf r =
     (r = 0 \<or> (case recip pf r of None \<Rightarrow> False | Some q \<Rightarrow> sleep_error pf q = None))"

text \<open>What line 91 adds to the events at rate \<open>r\<close> when it does not raise.\<close>

definition naps :: "platform \<Rightarrow> nat \<Rightarrow> real \<Rightarrow> 'v event list" where
  "naps pf T r =
     (if r = 0 then [] else (case recip pf r of None \<Rightarrow> [] | Some q \<Rightarrow> [Sleep T q]))"

text \<open>The handle thread \<open>T\<close> read at line 85.\<close>

definition handle_of :: "nat \<Rightarrow> ('v, 'k) sys \<Rightarrow> nat option" where
  "handle_of T s = lt (thr s T)"

subsection \<open>States and schedules of the scenarios\<close>

text \<open>The state \<^verbatim>\<open>unpause\<close> leaves when called first on a paused DataSource \<open>d\<close>:
  thread 0 is started and has not run yet.\<close>

definition started :: "('v, 'k) DataSource \<Rightarrow> ('v, 'k) sys" where
  "started d =
     (boot (d\<lparr>thread := Some 0\<rparr>) [])
       \<lparr>ct := Some 0,
        thr := (thr (boot d []))(0 := \<lparr>lpc = L83, lt = None, lv = None\<rparr>),
        spawned := 1, evs := [Call Unpause, Return Unpause]\<rparr>"

text \<open>The same three statements of thread 0 later: at the head of the loop, with the
  counting generator, the recording sink and rate \<open>r\<close>.\<close>

definition looping :: "real \<Rightarrow> (int, int list) sys" where
  "looping r =
     (boot ((init (Some counter) r (Some recorder))\<lparr>thread := Some 0, paused := False\<rparr>) [])
       \<lparr>ct := Some 0,
        thr := (thr (boot (init (Some counter) r (Some recorder)) []))
                 (0 := \<lparr>lpc = L86, lt = Some 0, lv = None\<rparr>),
        spawned := 1, evs := [Call Unpause, Return Unpause]\<rparr>"

definition app0 :: "int list CandleApp" where
  "app0 = \<lparr>chart = [], shown = [], errors_logged = 0\<rparr>"

text \<open>
  Two calls of \<^verbatim>\<open>unpause\<close> in a row (eight statements of the controller) before
  either thread runs; then thread 0 and thread 1 each run up to their call of
  \<^verbatim>\<open>sink.send\<close>; then each delivers, and each runs one more iteration.
\<close>

definition two_loops :: "actor list" where
  "two_loops =
     [Ctl, Ctl, Ctl, Ctl, Ctl, Ctl, Ctl, Ctl,
      Thr 0, Thr 0, Thr 0, Thr 0, Thr 0, Thr 0,
      Thr 1, Thr 1, Thr 1, Thr 1, Thr 1, Thr 1]"

definition two_loops_on :: "actor list" where
  "two_loops_on =
     [Thr 0, Thr 1,
      Thr 0, Thr 0, Thr 0, Thr 0, Thr 0,
      Thr 1, Thr 1, Thr 1, Thr 1, Thr 1]"

text \<open>
  Two calls of \<^verbatim>\<open>unpause\<close> in a row, then thread 1 enters its loop while thread 0
  has not run yet; then \<^verbatim>\<open>pause\<close> runs up to its join, thread 1 finishes its
  iteration and exits, and \<^verbatim>\<open>pause\<close> returns; then thread 0 runs.
\<close>

definition late_loop :: "actor list" where
  "late_loop =
     [Ctl, Ctl, Ctl, Ctl, Ctl, Ctl, Ctl, Ctl,
      Thr 1, Thr 1, Thr 1, Thr 1]"

definition pause_joins :: "actor list" where
  "pause_joins =
     [Ctl, Ctl, Ctl, Ctl,
      Thr 1, Thr 1, Thr 1, Thr 1, Thr 1,
      Ctl, Ctl]"

definition late_loop_on :: "actor list" where
  "late_loop_on =
     [Thr 0, Thr 0, Thr 0, Thr 0, Thr 0, Thr 0, Thr 0,
      Thr 0, Thr 0, Thr 0, Thr 0, Thr 0]"



definition unpause_16 :: "actor list" where
  "unpause_16 =
     [Ctl, Ctl, Ctl, Ctl,
      Thr 0, Thr 0, Thr 0, Thr 0, Thr 0, Thr 0, Thr 0, Thr 0, Thr 0, Thr 0, Thr 0, Thr 0,
      Thr 0, Thr 0, Thr 0, Thr 0]"

text \<open>A thread that cannot move: not started, or over.\<close>

definition inert :: "lpc \<Rightarrow> bool" where
  "inert p = (p = Unstarted \<or> terminated p)"

text \<open>
  Invariant of one call of \<^verbatim>\<open>pause\<close> made while the flag is clear, the handle names
  thread \<open>T\<close>, that thread has executed line 84 and no other thread can move: where
  the controller stands between the call and the return.
\<close>

definition pausing :: "nat \<Rightarrow> ('v, 'k) sys \<Rightarrow> bool" where
  "pausing T s =
     ((\<forall>T'. T' \<noteq> T \<longrightarrow> inert (lpc (thr s T'))) \<and> past84 (lpc (thr s T)) \<and>
      (cpc s = Idle \<and> prog s = [Pause] \<and> \<not> paused (ds s) \<and> thread (ds s) = Some T \<or>
       cpc s = P61 False \<and> prog s = [] \<and> \<not> paused (ds s) \<and> thread (ds s) = Some T \<or>
       cpc s = P62 False \<and> prog s = [] \<and> thread (ds s) = Some T \<or>
       cpc s = P63 False \<and> prog s = [] \<and> paused (ds s) \<and> thread (ds s) = Some T \<or>
       cpc s = P64 False \<and> prog s = [] \<and> paused (ds s) \<and> ct s = Some T \<or>
       cpc s = P65 False \<and> prog s = [] \<and> paused (ds s) \<and> terminated (lpc (thr s T)) \<or>
       cpc s = Idle \<and> prog s = [] \<and> paused (ds s) \<and> thread (ds s) = None \<and>
         terminated (lpc (thr s T))))"

section \<open>Properties\<close>

subsection \<open>Schedules, deliveries\<close>

lemma run_append: "run pf (xs @ ys) s = (case run pf xs s of None \<Rightarrow> None | Some s' \<Rightarrow> run pf ys s')"
  by (induction xs arbitrary: s) (auto split: option.splits)

lemma run_invariant:
  assumes pres: "\<And>a s s'. I s \<Longrightarrow> step pf a s = Some s' \<Longrightarrow> I s'"
    and init: "I s" and run: "run pf sched s = Some s'"
  shows "I s'"
  using init run
proof (induction sched arbitrary: s)
  case Nil
  then show ?case by simp
next
  case (Cons a sched)
  from Cons.prems(2) obtain s1 where a: "step pf a s = Some s1" and r: "run pf sched s1 = Some s'"
    by (auto split: option.splits)
  from pres [OF Cons.prems(1) a] have "I s1" .
  from Cons.IH [OF this r] show ?case .
qed

lemma sends_append: "sends (xs @ ys) = sends xs @ sends ys"
  by (induction xs rule: sends.induct) auto

subsection \<open>The synchronous pull\<close>

text \<open>
  C10. \<^verbatim>\<open>next\<close> leaves \<open>paused\<close>, \<open>thread\<close>, \<open>sink\<close> and \<open>data_rate\<close> as they were.
  With no generator bound the whole DataSource is unchanged; with a generator that has
  an element at its cursor the only change is the cursor moved by one (an exhausted
  generator raises and nothing changes).
\<close>

theorem next_frame:
  "paused (snd (next_ds d)) = paused d \<and> thread (snd (next_ds d)) = thread d \<and>
   sink (snd (next_ds d)) = sink d \<and> data_rate (snd (next_ds d)) = data_rate d \<and>
   (source_gen d = None \<longrightarrow> snd (next_ds d) = d) \<and>
   (\<forall>g. source_gen d = Some g \<longrightarrow>
      (case items g (pos g) of
         None \<Rightarrow> snd (next_ds d) = d
       | Some v \<Rightarrow> snd (next_ds d) = d\<lparr>source_gen := Some (g\<lparr>pos := Suc (pos g)\<rparr>)\<rparr>))"
  by (auto simp: next_ds_def gen_next_def split: option.splits sum.splits)

theorem next_frame_witness:
  "snd (next_ds (init (Some counter) 10 (Some recorder))) =
     (init (Some counter) 10 (Some recorder))\<lparr>source_gen := Some (counter\<lparr>pos := 1\<rparr>)\<rparr> \<and>
   snd (next_ds (init None 10 (Some recorder))) = (init None 10 (Some recorder) :: (int, int list) DataSource)"
  using next_frame [of "init (Some counter) 10 (Some recorder)"]
    next_frame [of "init None 10 (Some recorder) :: (int, int list) DataSource"]
  by (simp add: init_def counter_def)

lemma nexts_loop_state:
  "source_gen d' = source_gen d \<Longrightarrow> fst (nexts n d') = fst (nexts n d)"
proof (induction n arbitrary: d d')
  case 0
  then show ?case by simp
next
  case (Suc n)
  show ?case
  proof (cases "source_gen d")
    case None
    with Suc.prems have "next_ds d = (Inr None, d)" "next_ds d' = (Inr None, d')"
      by (simp_all add: next_ds_def)
    with Suc.IH [OF Suc.prems] show ?thesis by simp
  next
    case (Some g)
    show ?thesis
    proof (cases "items g (pos g)")
      case None
      with Some Suc.prems show ?thesis by (simp add: next_ds_def gen_next_def)
    next
      case (Some v)
      let ?g = "Some (g\<lparr>pos := Suc (pos g)\<rparr>)"
      from Some \<open>source_gen d = Some g\<close> Suc.prems
      have "next_ds d = (Inr (Some v), d\<lparr>source_gen := ?g\<rparr>)"
        "next_ds d' = (Inr (Some v), d'\<lparr>source_gen := ?g\<rparr>)"
        by (simp_all add: next_ds_def gen_next_def)
      with Suc.IH [of "d'\<lparr>source_gen := ?g\<rparr>" "d\<lparr>source_gen := ?g\<rparr>"]
      show ?thesis by simp
    qed
  qed
qed

lemma nexts_values:
  "source_gen d = Some g \<Longrightarrow> map (items g) [pos g..<pos g + length vs] = map Some vs \<Longrightarrow>
   nexts (length vs) d = (map (\<lambda>v. Inr (Some v)) vs, d\<lparr>source_gen := Some (g\<lparr>pos := pos g + length vs\<rparr>)\<rparr>)"
proof (induction vs arbitrary: d g)
  case Nil
  then show ?case by simp
next
  case (Cons v vs)
  from Cons.prems(2) have hd: "items g (pos g) = Some v"
    and tl: "map (items g) [Suc (pos g)..<Suc (pos g) + length vs] = map Some vs"
    by (simp_all add: upt_rec)
  let ?g = "g\<lparr>pos := Suc (pos g)\<rparr>"
  let ?d = "d\<lparr>source_gen := Some ?g\<rparr>"
  have nx: "next_ds d = (Inr (Some v), ?d)"
    using Cons.prems(1) hd by (simp add: next_ds_def gen_next_def)
  have "nexts (length vs) ?d = (map (\<lambda>v. Inr (Some v)) vs, ?d\<lparr>source_gen := Some (?g\<lparr>pos := pos ?g + length vs\<rparr>)\<rparr>)"
    by (rule Cons.IH) (use tl in simp_all)
  with nx show ?case by simp
qed


text \<open>
  C6. \<^verbatim>\<open>next\<close> returns \<^verbatim>\<open>None\<close> and changes nothing when no generator is bound;
  otherwise it returns the element at the generator's cursor. Successive calls return
  the generator's elements in the generator's order, whatever the \<open>paused\<close> flag and
  the thread handle are.
\<close>

theorem next_returns_generator_values:
  "(source_gen d = None \<longrightarrow> next_ds d = (Inr None, d)) \<and>
   (\<forall>g v. source_gen d = Some g \<and> items g (pos g) = Some v \<longrightarrow>
      next_ds d = (Inr (Some v), d\<lparr>source_gen := Some (g\<lparr>pos := Suc (pos g)\<rparr>)\<rparr>)) \<and>
   (\<forall>g vs. source_gen d = Some g \<and> map (items g) [pos g..<pos g + length vs] = map Some vs \<longrightarrow>
      fst (nexts (length vs) d) = map (\<lambda>v. Inr (Some v)) vs \<and>
      fst (nexts (length vs) (d\<lparr>paused := b, thread := t\<rparr>)) = map (\<lambda>v. Inr (Some v)) vs)"
proof (intro conjI allI impI)
  assume "source_gen d = None"
  then show "next_ds d = (Inr None, d)" by (simp add: next_ds_def)
next
  fix g v
  assume "source_gen d = Some g \<and> items g (pos g) = Some v"
  then show "next_ds d = (Inr (Some v), d\<lparr>source_gen := Some (g\<lparr>pos := Suc (pos g)\<rparr>)\<rparr>)"
    by (simp add: next_ds_def gen_next_def)
next
  fix g vs
  assume a: "source_gen d = Some g \<and> map (items g) [pos g..<pos g + length vs] = map Some vs"
  then show r: "fst (nexts (length vs) d) = map (\<lambda>v. Inr (Some v)) vs"
    using nexts_values [of d g vs] by simp
  have "fst (nexts (length vs) (d\<lparr>paused := b, thread := t\<rparr>)) = fst (nexts (length vs) d)"
    by (rule nexts_loop_state) simp
  with r show "fst (nexts (length vs) (d\<lparr>paused := b, thread := t\<rparr>)) = map (\<lambda>v. Inr (Some v)) vs"
    by simp
qed

theorem next_returns_generator_values_witness:
  "next_ds (init None 1 None :: (int, int list) DataSource) = (Inr None, init None 1 None) \<and>
   fst (next_ds (init (Some counter) 1 None :: (int, int list) DataSource)) = Inr (Some 1) \<and>
   fst (nexts 3 (init (Some counter) 1 None :: (int, int list) DataSource)) = [Inr (Some 1), Inr (Some 2), Inr (Some 3)] \<and>
   fst (nexts 3 ((init (Some counter) 1 None :: (int, int list) DataSource)\<lparr>paused := False, thread := Some 0\<rparr>))
     = [Inr (Some 1), Inr (Some 2), Inr (Some 3)]"
proof -
  let ?d = "init (Some counter) 1 None :: (int, int list) DataSource"
  have m: "map (items counter) [pos counter..<pos counter + length [1, 2, 3 :: int]] = map Some [1, 2, 3]"
    by (simp add: counter_def upt_rec)
  have g: "source_gen ?d = Some counter" by (simp add: init_def)
  have n: "source_gen (init None 1 None :: (int, int list) DataSource) = None" by (simp add: init_def)
  have h: "items counter (pos counter) = Some 1" by (simp add: counter_def)
  from next_returns_generator_values [of "init None 1 None :: (int, int list) DataSource"] n
  have 1: "next_ds (init None 1 None :: (int, int list) DataSource) = (Inr None, init None 1 None)"
    by blast
  from next_returns_generator_values [of ?d] g h
  have 2: "fst (next_ds ?d) = Inr (Some 1)" by simp
  from next_returns_generator_values [where d = ?d and b = False and t = "Some 0"] g m
  have 3: "fst (nexts (length [1, 2, 3 :: int]) ?d) = map (\<lambda>v. Inr (Some v)) [1, 2, 3] \<and>
      fst (nexts (length [1, 2, 3 :: int]) (?d\<lparr>paused := False, thread := Some 0\<rparr>)) = map (\<lambda>v. Inr (Some v)) [1, 2, 3]"
    by blast
  have l: "length [1, 2, 3 :: int] = 3" by simp
  from 1 2 3 show ?thesis unfolding l by simp
qed


subsection \<open>Pausing a paused DataSource\<close>

text \<open>
  C4. \<^verbatim>\<open>pause\<close> called on a paused DataSource returns at line 61: the call is over
  after its entry and that line, it never waits, and apart from the record of the call
  nothing changes: no field of the DataSource, no thread.
\<close>

theorem pause_idempotent:
  "cpc s = Idle \<Longrightarrow> prog s = Pause # cs \<Longrightarrow> paused (ds s) \<Longrightarrow>
   run pf [Ctl, Ctl] s = Some (s\<lparr>cpc := Idle, prog := cs, evs := evs s @ [Call Pause, Return Pause]\<rparr>)"
  by (simp add: step_def cstep_def pause_return_def)

theorem pause_idempotent_witness:
  "run cpython [Ctl, Ctl] (boot (init (Some counter) 10 (Some recorder)) [Pause]) =
     Some ((boot (init (Some counter) 10 (Some recorder)) [])\<lparr>evs := [Call Pause, Return Pause]\<rparr>)"
  using pause_idempotent [of "boot (init (Some counter) 10 (Some recorder)) [Pause]" "[]"]
  by (simp add: boot_def init_def)

subsection \<open>The initial state\<close>

lemmas model_defs = step_def cstep_def lstep_def goto_def pause_return_def terminated_def
  next_ds_def gen_next_def boot_def init_def

lemma next_ds_paused: "next_ds d = (r, d') \<Longrightarrow> paused d' = paused d"
  by (auto simp: next_ds_def gen_next_def split: option.splits sum.splits)

lemma via_unpause_cstep:
  assumes "via_unpause cs s" "cstep s = Some s'"
  shows "via_unpause cs s'"
proof (cases "cpc s")
  case Idle
  with assms show ?thesis
    by (cases "prog s"; cases "hd (prog s)")
      (auto simp: via_unpause_def cstep_def in_unpause_def dest: next_ds_paused
        split: list.splits call.splits prod.splits sum.splits)
next
  case (P61 u)
  with assms show ?thesis
    by (cases u) (auto simp: via_unpause_def cstep_def in_unpause_def pause_return_def split: if_splits)
next
  case (P62 u)
  with assms show ?thesis
    by (cases u) (auto simp: via_unpause_def cstep_def in_unpause_def)
next
  case (P63 u)
  with assms show ?thesis
    by (cases u) (auto simp: via_unpause_def cstep_def in_unpause_def)
next
  case (P64 u)
  with assms show ?thesis
    by (cases u) (auto simp: via_unpause_def cstep_def in_unpause_def split: option.splits if_splits)
next
  case (P65 u)
  with assms show ?thesis
    by (cases u) (auto simp: via_unpause_def cstep_def in_unpause_def pause_return_def)
next
  case U69
  with assms show ?thesis
    by (auto simp: via_unpause_def cstep_def in_unpause_def)
next
  case U71
  with assms show ?thesis
    by (auto simp: via_unpause_def cstep_def in_unpause_def past84_def split: option.splits if_splits)
next
  case (Crashed e)
  with assms show ?thesis by (simp add: cstep_def)
qed

lemma via_unpause_lstep:
  assumes "via_unpause cs s" "lstep pf T s = Some s'"
  shows "via_unpause cs s'"
proof -
  from assms(2) have st: "lpc (thr s T) \<noteq> Unstarted"
    by (auto simp: lstep_def)
  with assms(1) have u: "Unpause \<in> set cs" "set (prog s) \<subseteq> set cs"
    by (auto simp: via_unpause_def)
  have p: "prog s' = prog s" "cpc s' = cpc s"
    using assms(2)
    by (auto simp: lstep_def goto_def split: lpc.splits option.splits sum.splits prod.splits if_splits)
  have "\<exists>T. past84 (lpc (thr s' T))" if "\<not> paused (ds s')"
  proof (cases "paused (ds s)")
    case True
    with that assms(2) have "lpc (thr s' T) = L85"
      by (auto simp: lstep_def goto_def split: lpc.splits option.splits sum.splits prod.splits if_splits)
    then have "past84 (lpc (thr s' T))" by (simp add: past84_def)
    then show ?thesis ..
  next
    case False
    with assms(1) obtain T' where T': "past84 (lpc (thr s T'))"
      by (auto simp: via_unpause_def)
    have "past84 (lpc (thr s' T'))"
      using assms(2) T'
      by (cases "T' = T")
        (auto simp: lstep_def goto_def past84_def split: lpc.splits option.splits sum.splits prod.splits if_splits)
    then show ?thesis ..
  qed
  with u p show ?thesis by (simp add: via_unpause_def)
qed

lemma via_unpause_boot: "paused d \<Longrightarrow> via_unpause cs (boot d cs)"
  by (simp add: via_unpause_def boot_def in_unpause_def)

text \<open>
  C9. A DataSource is paused right after construction, whatever the generator, the
  rate and the sink are. From there, whatever calls the controller makes and however
  they interleave with the loop threads, the flag is cleared only when \<^verbatim>\<open>unpause\<close>
  is among the calls and a loop thread it started has executed line 84.
\<close>

theorem starts_paused:
  "paused (init g r k) \<and>
   (\<forall>sched cs s. run pf sched (boot (init g r k) cs) = Some s \<and> \<not> paused (ds s) \<longrightarrow>
      Unpause \<in> set cs \<and>
      (\<exists>T. lpc (thr s T) \<noteq> Unstarted \<and> lpc (thr s T) \<noteq> L83 \<and> lpc (thr s T) \<noteq> L84))"
proof (intro conjI allI impI)
  show p: "paused (init g r k)" by (simp add: init_def)
  fix sched cs and s :: "('a, 'b) sys"
  assume a: "run pf sched (boot (init g r k) cs) = Some s \<and> \<not> paused (ds s)"
  have "via_unpause cs s"
  proof (rule run_invariant [where I = "via_unpause cs"])
    show "via_unpause cs (boot (init g r k) cs)" using p by (rule via_unpause_boot)
    show "run pf sched (boot (init g r k) cs) = Some s" using a by simp
  next
    fix a and s s' :: "('a, 'b) sys"
    assume "via_unpause cs s" "step pf a s = Some s'"
    then show "via_unpause cs s'"
      by (cases a) (auto simp: step_def intro: via_unpause_cstep via_unpause_lstep)
  qed
  with a obtain T where T: "past84 (lpc (thr s T))" by (auto simp: via_unpause_def)
  then have "lpc (thr s T) \<noteq> Unstarted" by (simp add: past84_def)
  with \<open>via_unpause cs s\<close> show "Unpause \<in> set cs" by (auto simp: via_unpause_def)
  from T show "\<exists>T. lpc (thr s T) \<noteq> Unstarted \<and> lpc (thr s T) \<noteq> L83 \<and> lpc (thr s T) \<noteq> L84"
    by (auto simp: past84_def)
qed

theorem starts_paused_witness:
  "paused (init (Some counter) 10 (Some recorder)) \<and>
   (\<exists>s. run cpython [Ctl, Ctl, Ctl, Ctl, Thr 0, Thr 0] (boot (init (Some counter) 10 (Some recorder)) [Unpause]) = Some s \<and>
     \<not> paused (ds s) \<and> lpc (thr s 0) = L85) \<and> Unpause \<in> set [Unpause]"
proof -
  let ?b = "boot (init (Some counter) 10 (Some recorder)) [Unpause]"
  obtain s where s: "run cpython [Ctl, Ctl, Ctl, Ctl, Thr 0, Thr 0] ?b = Some s" and np: "\<not> paused (ds s)"
    and l: "lpc (thr s 0) = L85"
    by (simp add: model_defs)
  from starts_paused [of "Some counter" 10 "Some recorder"] s np
  have "paused (init (Some counter) 10 (Some recorder))" "Unpause \<in> set [Unpause]"
    by blast+
  with s np l show ?thesis by blast
qed

subsection \<open>Starting without a sink\<close>

lemma next_ds_sink: "next_ds d = (r, d') \<Longrightarrow> sink d' = sink d"
  by (auto simp: next_ds_def gen_next_def split: option.splits sum.splits)

lemma next_ds_raises: "next_ds d = (Inl e, d') \<Longrightarrow> e = StopIteration"
  by (auto simp: next_ds_def gen_next_def split: option.splits sum.splits)

lemma sinkless_cstep:
  assumes "sinkless s" "cstep s = Some s'"
  shows "sinkless s'"
proof -
  from assms(1) consider "cpc s = Idle" | u where "cpc s = P61 u" | "cpc s = U69" | "cpc s = U71"
    | "cpc s = Crashed StopIteration"
    by (auto simp: sinkless_def)
  then show ?thesis
  proof cases
    case 1
    show ?thesis
    proof (cases "prog s")
      case Nil
      with 1 assms show ?thesis by (simp add: cstep_def)
    next
      case (Cons c cs)
      show ?thesis
      proof (cases c)
        case Next
        obtain r d where n: "next_ds (ds s) = (r, d)" by (cases "next_ds (ds s)")
        from n have "sink d = sink (ds s)" "paused d = paused (ds s)"
          by (auto dest: next_ds_sink next_ds_paused)
        with 1 Cons Next n assms show ?thesis
          by (cases r) (auto simp: cstep_def sinkless_def sends_append dest: next_ds_raises)
      qed (use 1 Cons assms in \<open>auto simp: cstep_def sinkless_def sends_append\<close>)
    qed
  next
    case 2
    with assms show ?thesis
      by (cases u) (auto simp: cstep_def sinkless_def pause_return_def sends_append)
  next
    case 3
    with assms show ?thesis
      by (auto simp: cstep_def sinkless_def)
  next
    case 4
    with assms(1) obtain T where T: "ct s = Some T" "T < spawned s" "lpc (thr s T) = Unstarted"
      by (auto simp: sinkless_def)
    with 4 assms(2) have s': "s' = s\<lparr>thr := (thr s)(T := (thr s T)\<lparr>lpc := L83\<rparr>), cpc := Idle,
                            evs := evs s @ [Return Unpause]\<rparr>"
      by (simp add: cstep_def)
    have pcs: "lpc (thr s' T') = Unstarted \<or> lpc (thr s' T') = L83 \<or> lpc (thr s' T') = Died ValueError" for T'
      using assms(1) s' by (cases "T' = T") (simp_all add: sinkless_def)
    have fresh: "lpc (thr s' T') = Unstarted" if "spawned s' \<le> T'" for T'
      using assms(1) s' T(2) that by (cases "T' = T") (simp_all add: sinkless_def)
    from assms(1) s' pcs fresh show ?thesis
      by (simp add: sinkless_def sends_append)
  next
    case 5
    with assms show ?thesis by (simp add: cstep_def)
  qed
qed

lemma sinkless_lstep:
  assumes "sinkless s" "lstep pf T s = Some s'"
  shows "sinkless s'"
proof -
  from assms(1)
  have "lpc (thr s T) = Unstarted \<or> lpc (thr s T) = L83 \<or> lpc (thr s T) = Died ValueError"
    by (simp add: sinkless_def)
  with assms(2) have "lpc (thr s T) = L83"
    by (auto simp: lstep_def)
  with assms have s': "s' = goto T (Died ValueError) s"
    by (simp add: lstep_def sinkless_def)
  have pcs: "lpc (thr s' T') = Unstarted \<or> lpc (thr s' T') = L83 \<or> lpc (thr s' T') = Died ValueError" for T'
    using assms(1) s' by (cases "T' = T") (simp_all add: sinkless_def goto_def)
  have fresh: "lpc (thr s' T') = Unstarted" if "spawned s' \<le> T'" for T'
  proof (cases "T' = T")
    case True
    with that assms(1) s' have "lpc (thr s T) = Unstarted" by (simp add: sinkless_def goto_def)
    with \<open>lpc (thr s T) = L83\<close> show ?thesis by simp
  next
    case False
    with that assms(1) s' show ?thesis by (simp add: sinkless_def goto_def)
  qed
  have u71: "\<exists>T'. ct s' = Some T' \<and> T' < spawned s' \<and> lpc (thr s' T') = Unstarted" if "cpc s' = U71"
  proof -
    from that assms(1) s' obtain T' where T': "ct s = Some T'" "T' < spawned s" "lpc (thr s T') = Unstarted"
      by (auto simp: sinkless_def goto_def)
    with \<open>lpc (thr s T) = L83\<close> have "T' \<noteq> T" by auto
    with T' s' show ?thesis by (simp add: goto_def)
  qed
  from assms(1) s' pcs fresh u71 show ?thesis
    by (simp add: sinkless_def goto_def)
qed

lemma sinkless_boot: "sink d = None \<Longrightarrow> paused d \<Longrightarrow> sinkless (boot d cs)"
  by (simp add: sinkless_def boot_def)

text \<open>
  C3, as the code has it. With no sink bound and the DataSource paused, \<^verbatim>\<open>unpause\<close>
  itself returns normally: it stores the new thread's handle and starts the thread,
  and the ValueError is raised by line 83 inside that thread, which ends it. In every
  run pf of any calls from such a state the flag stays set, nothing is delivered, no call
  of the controller raises ValueError, and no loop thread gets past line 83.
\<close>

theorem unpause_without_sink:
  assumes "sink d = None" and "paused d" and r: "run pf sched (boot d cs) = Some s"
  shows "run pf [Ctl, Ctl, Ctl, Ctl, Thr 0] (boot d (Unpause # cs')) =
           Some ((boot d cs')\<lparr>ds := d\<lparr>thread := Some 0\<rparr>, ct := Some 0, spawned := 1,
                    thr := (thr (boot d cs'))(0 := \<lparr>lpc = Died ValueError, lt = None, lv = None\<rparr>),
                    evs := [Call Unpause, Return Unpause]\<rparr>) \<and>
         paused (ds s) \<and> sends (evs s) = [] \<and> cpc s \<noteq> Crashed ValueError \<and>
         (\<forall>T. lpc (thr s T) = Unstarted \<or> lpc (thr s T) = L83 \<or> lpc (thr s T) = Died ValueError)"
proof -
  have 1: "run pf [Ctl, Ctl, Ctl, Ctl, Thr 0] (boot d (Unpause # cs')) =
           Some ((boot d cs')\<lparr>ds := d\<lparr>thread := Some 0\<rparr>, ct := Some 0, spawned := 1,
                    thr := (thr (boot d cs'))(0 := \<lparr>lpc = Died ValueError, lt = None, lv = None\<rparr>),
                    evs := [Call Unpause, Return Unpause]\<rparr>)"
    using assms(1,2) by (simp add: step_def cstep_def lstep_def goto_def pause_return_def boot_def)
  have "sinkless s"
  proof (rule run_invariant [where I = sinkless])
    show "sinkless (boot d cs)" using assms(1,2) by (rule sinkless_boot)
    show "run pf sched (boot d cs) = Some s" by (rule r)
  next
    fix a and s s' :: "('a, 'b) sys"
    assume "sinkless s" "step pf a s = Some s'"
    then show "sinkless s'"
      by (cases a) (auto simp: step_def intro: sinkless_cstep sinkless_lstep)
  qed
  then have 2: "paused (ds s) \<and> sends (evs s) = [] \<and> cpc s \<noteq> Crashed ValueError \<and>
           (\<forall>T. lpc (thr s T) = Unstarted \<or> lpc (thr s T) = L83 \<or> lpc (thr s T) = Died ValueError)"
    by (auto simp: sinkless_def)
  from 1 2 show ?thesis by simp
qed

theorem unpause_without_sink_witness:
  "\<exists>s. run cpython [Ctl, Ctl, Ctl, Ctl, Thr 0] (boot (init (Some counter) 10 None :: (int, int list) DataSource) [Unpause]) = Some s \<and>
     paused (ds s) \<and> sends (evs s) = [] \<and> cpc s = Idle \<and> lpc (thr s 0) = Died ValueError \<and>
     thread (ds s) = Some 0"
proof -
  let ?d = "init (Some counter) 10 None :: (int, int list) DataSource"
  have d: "sink ?d = None" "paused ?d" by (simp_all add: init_def)
  obtain s where s: "run cpython [Ctl, Ctl, Ctl, Ctl, Thr 0] (boot ?d [Unpause]) = Some s"
    and o: "cpc s = Idle" "lpc (thr s 0) = Died ValueError" "thread (ds s) = Some 0"
    by (simp add: model_defs)
  from unpause_without_sink [OF d s, of "[]"] have "paused (ds s) \<and> sends (evs s) = []"
    by simp
  with s o show ?thesis by blast
qed

text \<open>
  C3 as stated fails: \<^verbatim>\<open>unpause\<close> with no sink bound does not fail. After its four
  statements the controller is back at the caller with the call recorded as returned
  and a thread handle stored; the exception shows only when the thread runs.
\<close>

theorem unpause_without_sink_returns:
  "after cpython [Ctl, Ctl, Ctl, Ctl] (boot (init (Some counter) 10 None :: (int, int list) DataSource) [Unpause]) cpc = Some Idle \<and>
   after cpython [Ctl, Ctl, Ctl, Ctl] (boot (init (Some counter) 10 None :: (int, int list) DataSource) [Unpause]) evs
     = Some [Call Unpause, Return Unpause] \<and>
   after cpython [Ctl, Ctl, Ctl, Ctl] (boot (init (Some counter) 10 None :: (int, int list) DataSource) [Unpause]) (pc_of 0)
     = Some L83 \<and>
   after cpython [Ctl, Ctl, Ctl, Ctl, Thr 0] (boot (init (Some counter) 10 None :: (int, int list) DataSource) [Unpause]) (pc_of 0)
     = Some (Died ValueError)"
  by (simp add: after_def pc_of_def model_defs)

subsection \<open>A loop thread running alone\<close>

lemma loop_prelude:
  assumes "lpc (thr s T) = L83" "sink (ds s) = Some k"
  shows "run pf [Thr T, Thr T, Thr T] s =
           Some (s\<lparr>ds := (ds s)\<lparr>paused := False\<rparr>,
                   thr := (thr s)(T := (thr s T)\<lparr>lpc := L86, lt := thread (ds s)\<rparr>)\<rparr>)"
  using assms by (simp add: step_def lstep_def goto_def)

lemma one_iteration:
  assumes "in_loop T s" "source_gen (ds s) = Some g" "items g (pos g) = Some v"
    "sink (ds s) = Some k" "sink_send k (sink_self k) v = (None, a)"
    "sleepable pf (data_rate (ds s))"
  shows "run pf [Thr T, Thr T, Thr T, Thr T, Thr T] s =
           Some (s\<lparr>ds := (ds s)\<lparr>source_gen := Some (g\<lparr>pos := Suc (pos g)\<rparr>),
                                sink := Some (k\<lparr>sink_self := a\<rparr>)\<rparr>,
                   thr := (thr s)(T := (thr s T)\<lparr>lpc := L86, lv := Some v\<rparr>),
                   evs := evs s @ Send T v # naps pf T (data_rate (ds s))\<rparr>)"
  using assms
  by (auto simp: in_loop_def step_def lstep_def goto_def gen_next_def naps_def sleepable_def
      split: option.splits
      intro!: sys.equality lthread.equality arg_cong [where f = "fun_upd (thr s) T"])

lemma sends_naps: "sends (naps pf T r) = []"
  by (simp add: naps_def split: option.splits)

lemma iterations:
  assumes "in_loop T s" "source_gen (ds s) = Some g"
    "map (items g) [pos g..<pos g + length vs] = map Some vs"
    "sink (ds s) = Some k" "\<forall>a v. fst (sink_send k a v) = None"
    "sleepable pf (data_rate (ds s))"
  shows "\<exists>s'. run pf (replicate (5 * length vs) (Thr T)) s = Some s' \<and> in_loop T s' \<and>
           thread (ds s') = thread (ds s) \<and> data_rate (ds s') = data_rate (ds s) \<and>
           source_gen (ds s') = Some (g\<lparr>pos := pos g + length vs\<rparr>) \<and>
           sink (ds s') =
             Some (k\<lparr>sink_self := foldl (\<lambda>a v. snd (sink_send k a v)) (sink_self k) vs\<rparr>) \<and>
           sends (evs s') = sends (evs s) @ map (Pair T) vs \<and>
           cpc s' = cpc s \<and> prog s' = prog s"
  using assms
proof (induction vs arbitrary: s g k)
  case Nil
  then show ?case by (cases k) auto
next
  case (Cons v vs)
  from Cons.prems(3) have hd: "items g (pos g) = Some v"
    and tl: "map (items g) [Suc (pos g)..<Suc (pos g) + length vs] = map Some vs"
    by (simp_all add: upt_rec)
  define a where "a = snd (sink_send k (sink_self k) v)"
  have a: "sink_send k (sink_self k) v = (None, a)"
    using Cons.prems(5) by (metis a_def prod.collapse)
  let ?g = "g\<lparr>pos := Suc (pos g)\<rparr>"
  let ?k = "k\<lparr>sink_self := a\<rparr>"
  let ?s = "s\<lparr>ds := (ds s)\<lparr>source_gen := Some ?g, sink := Some ?k\<rparr>,
               thr := (thr s)(T := (thr s T)\<lparr>lpc := L86, lv := Some v\<rparr>),
               evs := evs s @ Send T v # naps pf T (data_rate (ds s))\<rparr>"
  have one: "run pf (replicate 5 (Thr T)) s = Some ?s"
    using one_iteration [OF Cons.prems(1,2) hd Cons.prems(4) a Cons.prems(6)]
    by (simp add: numeral_eq_Suc)
  have "\<exists>s'. run pf (replicate (5 * length vs) (Thr T)) ?s = Some s' \<and> in_loop T s' \<and>
           thread (ds s') = thread (ds ?s) \<and> data_rate (ds s') = data_rate (ds ?s) \<and>
           source_gen (ds s') = Some (?g\<lparr>pos := pos ?g + length vs\<rparr>) \<and>
           sink (ds s') =
             Some (?k\<lparr>sink_self := foldl (\<lambda>a v. snd (sink_send ?k a v)) (sink_self ?k) vs\<rparr>) \<and>
           sends (evs s') = sends (evs ?s) @ map (Pair T) vs \<and>
           cpc s' = cpc ?s \<and> prog s' = prog ?s"
  proof (rule Cons.IH)
    show "in_loop T ?s" using Cons.prems(1) by (simp add: in_loop_def)
    show "source_gen (ds ?s) = Some ?g" by simp
    show "map (items ?g) [pos ?g..<pos ?g + length vs] = map Some vs" using tl by simp
    show "sink (ds ?s) = Some ?k" by simp
    show "\<forall>a v. fst (sink_send ?k a v) = None" using Cons.prems(5) by simp
    show "sleepable pf (data_rate (ds ?s))" using Cons.prems(6) by simp
  qed
  then obtain s' where s': "run pf (replicate (5 * length vs) (Thr T)) ?s = Some s'" "in_loop T s'"
    "thread (ds s') = thread (ds s)" "data_rate (ds s') = data_rate (ds s)"
    "source_gen (ds s') = Some (g\<lparr>pos := Suc (pos g) + length vs\<rparr>)"
    "sink (ds s') =
       Some (k\<lparr>sink_self := foldl (\<lambda>a v. snd (sink_send k a v)) (sink_self k) (v # vs)\<rparr>)"
    "sends (evs s') = sends (evs s) @ (T, v) # map (Pair T) vs"
    "cpc s' = cpc s" "prog s' = prog s"
    by (auto simp: sends_append sends_naps a_def)
  have "replicate (5 * length (v # vs)) (Thr T) = replicate 5 (Thr T) @ replicate (5 * length vs) (Thr T)"
    by (simp add: replicate_add [symmetric])
  with one s'(1) have "run pf (replicate (5 * length (v # vs)) (Thr T)) s = Some s'"
    by (simp add: run_append)
  with s'(2-) show ?case by simp
qed

lemma alone_from_start:
  assumes "lpc (thr s T) = L83" "source_gen (ds s) = Some g"
    "map (items g) [pos g..<pos g + length vs] = map Some vs"
    "sink (ds s) = Some k" "\<forall>a v. fst (sink_send k a v) = None"
    "sleepable pf (data_rate (ds s))"
  shows "\<exists>s'. run pf (replicate (3 + 5 * length vs) (Thr T)) s = Some s' \<and> in_loop T s' \<and>
           thread (ds s') = thread (ds s) \<and> data_rate (ds s') = data_rate (ds s) \<and>
           source_gen (ds s') = Some (g\<lparr>pos := pos g + length vs\<rparr>) \<and>
           sink (ds s') =
             Some (k\<lparr>sink_self := foldl (\<lambda>a v. snd (sink_send k a v)) (sink_self k) vs\<rparr>) \<and>
           sends (evs s') = sends (evs s) @ map (Pair T) vs \<and>
           cpc s' = cpc s \<and> prog s' = prog s"
proof -
  let ?s = "s\<lparr>ds := (ds s)\<lparr>paused := False\<rparr>,
               thr := (thr s)(T := (thr s T)\<lparr>lpc := L86, lt := thread (ds s)\<rparr>)\<rparr>"
  have pre: "run pf (replicate 3 (Thr T)) s = Some ?s"
    using loop_prelude [OF assms(1,4)] by (simp add: numeral_eq_Suc)
  have "\<exists>s'. run pf (replicate (5 * length vs) (Thr T)) ?s = Some s' \<and> in_loop T s' \<and>
           thread (ds s') = thread (ds ?s) \<and> data_rate (ds s') = data_rate (ds ?s) \<and>
           source_gen (ds s') = Some (g\<lparr>pos := pos g + length vs\<rparr>) \<and>
           sink (ds s') =
             Some (k\<lparr>sink_self := foldl (\<lambda>a v. snd (sink_send k a v)) (sink_self k) vs\<rparr>) \<and>
           sends (evs s') = sends (evs ?s) @ map (Pair T) vs \<and>
           cpc s' = cpc ?s \<and> prog s' = prog ?s"
  proof (rule iterations)
    show "in_loop T ?s" by (simp add: in_loop_def)
    show "source_gen (ds ?s) = Some g" using assms(2) by simp
    show "map (items g) [pos g..<pos g + length vs] = map Some vs" by (rule assms(3))
    show "sink (ds ?s) = Some k" using assms(4) by simp
    show "\<forall>a v. fst (sink_send k a v) = None" by (rule assms(5))
    show "sleepable pf (data_rate (ds ?s))" using assms(6) by simp
  qed
  then obtain s' where s': "run pf (replicate (5 * length vs) (Thr T)) ?s = Some s'" "in_loop T s'"
    "thread (ds s') = thread (ds s)" "data_rate (ds s') = data_rate (ds s)"
    "source_gen (ds s') = Some (g\<lparr>pos := pos g + length vs\<rparr>)"
    "sink (ds s') =
       Some (k\<lparr>sink_self := foldl (\<lambda>a v. snd (sink_send k a v)) (sink_self k) vs\<rparr>)"
    "sends (evs s') = sends (evs s) @ map (Pair T) vs"
    "cpc s' = cpc s" "prog s' = prog s"
    by auto
  from pre s'(1) have "run pf (replicate (3 + 5 * length vs) (Thr T)) s = Some s'"
    by (simp add: replicate_add run_append)
  with s'(2-) show ?thesis by simp
qed

lemma exhausted_exit:
  assumes "in_loop T s" "source_gen (ds s) = Some g" "items g (pos g) = None"
  shows "run pf [Thr T, Thr T, Thr T] s = Some (goto T (Died StopIteration) s)"
  using assms
  by (auto simp: in_loop_def step_def lstep_def goto_def gen_next_def
      intro!: sys.equality lthread.equality arg_cong [where f = "fun_upd (thr s) T"])








lemma started_reached:
  "paused d \<Longrightarrow> run pf [Ctl, Ctl, Ctl, Ctl] (boot d [Unpause]) = Some (started d)"
  by (simp add: started_def step_def cstep_def pause_return_def boot_def)

lemma started_fields:
  "lpc (thr (started d) 0) = L83" "ds (started d) = d\<lparr>thread := Some 0\<rparr>"
  "evs (started d) = [Call Unpause, Return Unpause]" "cpc (started d) = Idle"
  by (simp_all add: started_def boot_def)

lemma looping_reached:
  "run pf [Ctl, Ctl, Ctl, Ctl, Thr 0, Thr 0, Thr 0] (boot (init (Some counter) r (Some recorder)) [Unpause])
     = Some (looping r)"
  by (simp add: looping_def model_defs recorder_def)

subsection \<open>Rate limiting\<close>




subsection \<open>A failing delivery\<close>




lemmas candle_defs = CandleApp_sink_def send_def send_try_def log_error_def picky_chart_def app0_def

lemma picky_chart_logs:
  "after cpython (replicate 18 (Thr 0)) (started (init (Some counter) 0 (Some (CandleApp_sink picky_chart app0))))
     (map_option sink_self \<circ> sink \<circ> ds)
   = Some (Some \<lparr>chart = [1, 3], shown = [], errors_logged = 1\<rparr>)"
  by (simp add: after_def started_def model_defs candle_defs counter_def eval_nat_numeral)

subsection \<open>An exhausted generator\<close>

text \<open>
  C8 as stated fails: nothing resets the DataSource when the generator is exhausted.
  With a generator of two values the thread dies with StopIteration after the second
  delivery, and the flag still says running, the handle still names the dead thread,
  and the controller has seen nothing.
\<close>

theorem exhaustion_leaves_running:
  "after cpython unpause_16 (boot (init (Some two_values) 0 (Some recorder)) [Unpause]) (pc_of 0)
     = Some (Died StopIteration) \<and>
   after cpython unpause_16 (boot (init (Some two_values) 0 (Some recorder)) [Unpause]) (paused \<circ> ds)
     = Some False \<and>
   after cpython unpause_16 (boot (init (Some two_values) 0 (Some recorder)) [Unpause]) (thread \<circ> ds)
     = Some (Some 0) \<and>
   after cpython unpause_16 (boot (init (Some two_values) 0 (Some recorder)) [Unpause]) cpc = Some Idle"
  by (simp add: after_def pc_of_def unpause_16_def model_defs two_values_def recorder_def)

text \<open>
  C8, as the code has it. A loop thread running alone from its start, at a rate at
  which line 91 does not raise, with a sink that does not fail and a generator that
  has the values \<open>vs\<close> left and then no more,
  delivers exactly \<open>vs\<close> and then leaves \<^verbatim>\<open>loop\<close> by the StopIteration of line 89,
  which ends the thread. The flag stays clear, the handle is unchanged, and the
  controller is where it was.
\<close>

theorem exhaustion_ends_thread:
  assumes "lpc (thr s T) = L83" "source_gen (ds s) = Some g"
    "map (items g) [pos g..<pos g + length vs] = map Some vs" "items g (pos g + length vs) = None"
    "sink (ds s) = Some k" "\<forall>a v. fst (sink_send k a v) = None"
    "sleepable pf (data_rate (ds s))"
  shows "\<exists>s'. run pf (replicate (3 + 5 * length vs + 3) (Thr T)) s = Some s' \<and>
           lpc (thr s' T) = Died StopIteration \<and> step pf (Thr T) s' = None \<and>
           \<not> paused (ds s') \<and> thread (ds s') = thread (ds s) \<and>
           sends (evs s') = sends (evs s) @ map (Pair T) vs \<and>
           cpc s' = cpc s \<and> prog s' = prog s"
proof -
  from alone_from_start [OF assms(1,2,3,5,6,7)]
  obtain s1 where s1: "run pf (replicate (3 + 5 * length vs) (Thr T)) s = Some s1" "in_loop T s1"
    "thread (ds s1) = thread (ds s)"
    "source_gen (ds s1) = Some (g\<lparr>pos := pos g + length vs\<rparr>)"
    "sends (evs s1) = sends (evs s) @ map (Pair T) vs"
    "cpc s1 = cpc s" "prog s1 = prog s"
    by blast
  let ?s = "goto T (Died StopIteration) s1"
  have "run pf [Thr T, Thr T, Thr T] s1 = Some ?s"
    by (rule exhausted_exit [OF s1(2) s1(4)]) (use assms(4) in simp)
  then have "run pf (replicate 3 (Thr T)) s1 = Some ?s"
    by (simp add: numeral_eq_Suc)
  with s1(1) have "run pf (replicate (3 + 5 * length vs) (Thr T) @ replicate 3 (Thr T)) s = Some ?s"
    by (simp only: run_append option.case)
  then have r: "run pf (replicate (3 + 5 * length vs + 3) (Thr T)) s = Some ?s"
    by (simp only: replicate_add)
  have "lpc (thr ?s T) = Died StopIteration" "step pf (Thr T) ?s = None" "\<not> paused (ds ?s)"
    using s1(2) by (simp_all add: goto_def step_def lstep_def in_loop_def)
  moreover have "thread (ds ?s) = thread (ds s)" "sends (evs ?s) = sends (evs s) @ map (Pair T) vs"
    "cpc ?s = cpc s" "prog ?s = prog s"
    using s1(3,5,6,7) by (simp_all add: goto_def)
  ultimately show ?thesis using r by blast
qed

theorem exhaustion_ends_thread_witness:
  "\<exists>s'. run cpython (replicate 16 (Thr 0)) (started (init (Some two_values) 0 (Some recorder))) = Some s' \<and>
     lpc (thr s' 0) = Died StopIteration \<and> \<not> paused (ds s') \<and> thread (ds s') = Some 0 \<and>
     sends (evs s') = [(0, 1), (0, 2)] \<and> cpc s' = Idle"
proof -
  let ?s = "started (init (Some two_values) 0 (Some recorder))"
  have "\<exists>s'. run cpython (replicate (3 + 5 * length [1, 2 :: int] + 3) (Thr 0)) ?s = Some s' \<and>
           lpc (thr s' 0) = Died StopIteration \<and> step cpython (Thr 0) s' = None \<and>
           \<not> paused (ds s') \<and> thread (ds s') = thread (ds ?s) \<and>
           sends (evs s') = sends (evs ?s) @ map (Pair 0) [1, 2] \<and>
           cpc s' = cpc ?s \<and> prog s' = prog ?s"
  proof (rule exhaustion_ends_thread)
    show "lpc (thr ?s 0) = L83" by (simp add: started_fields)
    show "source_gen (ds ?s) = Some two_values" by (simp add: started_fields init_def)
    show "map (items two_values) [pos two_values..<pos two_values + length [1, 2 :: int]] = map Some [1, 2]"
      by (simp add: two_values_def upt_rec)
    show "items two_values (pos two_values + length [1, 2 :: int]) = None"
      by (simp add: two_values_def)
    show "sink (ds ?s) = Some recorder" by (simp add: started_fields init_def)
    show "\<forall>a v. fst (sink_send recorder a v) = None" by (simp add: recorder_def)
    show "sleepable cpython (data_rate (ds ?s))" by (simp add: started_fields init_def sleepable_def)
  qed
  then show ?thesis by (auto simp: started_fields init_def)
qed

subsection \<open>Two loops at once\<close>

text \<open>
  C2 fails on the code. \<^verbatim>\<open>unpause\<close> called twice before the first thread has run:
  the \<^verbatim>\<open>pause\<close> inside the second call returns at line 61 because the flag is still
  set, so the first thread is neither stopped nor joined. Both threads then read the
  second thread's handle at line 85, both pass the check of line 87, both stand at
  \<^verbatim>\<open>sink.send\<close> at the same time, and their deliveries alternate.
\<close>

theorem two_loops_deliver:
  "after cpython two_loops (boot (init (Some counter) 0 (Some recorder)) [Unpause, Unpause]) (pc_of 0) = Some L90 \<and>
   after cpython two_loops (boot (init (Some counter) 0 (Some recorder)) [Unpause, Unpause]) (pc_of 1) = Some L90 \<and>
   after cpython two_loops (boot (init (Some counter) 0 (Some recorder)) [Unpause, Unpause]) (handle_of 0) = Some (Some 1) \<and>
   after cpython two_loops (boot (init (Some counter) 0 (Some recorder)) [Unpause, Unpause]) (handle_of 1) = Some (Some 1) \<and>
   after cpython (two_loops @ two_loops_on) (boot (init (Some counter) 0 (Some recorder)) [Unpause, Unpause]) (sends \<circ> evs)
     = Some [(0, 1), (1, 2), (0, 3), (1, 4)] \<and>
   after cpython (two_loops @ two_loops_on) (boot (init (Some counter) 0 (Some recorder)) [Unpause, Unpause]) (pc_of 0)
     = Some L91 \<and>
   after cpython (two_loops @ two_loops_on) (boot (init (Some counter) 0 (Some recorder)) [Unpause, Unpause]) (pc_of 1)
     = Some L91"
  by (simp add: after_def pc_of_def handle_of_def two_loops_def two_loops_on_def model_defs
      counter_def recorder_def)

subsection \<open>Deliveries after pause has returned\<close>

text \<open>
  C1 fails on the code, by the same race. After two calls of \<^verbatim>\<open>unpause\<close> the second
  thread is in its loop and the flag is clear when \<^verbatim>\<open>pause\<close> is called. \<^verbatim>\<open>pause\<close>
  joins the thread of the handle, the second one, and returns. The first thread, which
  nobody joined, then clears the flag at line 84 and delivers, with no call of
  \<^verbatim>\<open>unpause\<close> after the return of \<^verbatim>\<open>pause\<close>.
\<close>

theorem delivery_after_pause:
  "after cpython late_loop (boot (init (Some counter) 0 (Some recorder)) [Unpause, Unpause, Pause]) (paused \<circ> ds)
     = Some False \<and>
   after cpython late_loop (boot (init (Some counter) 0 (Some recorder)) [Unpause, Unpause, Pause]) prog
     = Some [Pause] \<and>
   after cpython (late_loop @ pause_joins) (boot (init (Some counter) 0 (Some recorder)) [Unpause, Unpause, Pause]) evs
     = Some [Call Unpause, Return Unpause, Call Unpause, Return Unpause, Call Pause, Send 1 1,
             Return Pause] \<and>
   after cpython (late_loop @ pause_joins @ late_loop_on)
       (boot (init (Some counter) 0 (Some recorder)) [Unpause, Unpause, Pause]) evs
     = Some [Call Unpause, Return Unpause, Call Unpause, Return Unpause, Call Pause, Send 1 1,
             Return Pause, Send 0 2, Send 0 3] \<and>
   after cpython (late_loop @ pause_joins @ late_loop_on)
       (boot (init (Some counter) 0 (Some recorder)) [Unpause, Unpause, Pause]) (paused \<circ> ds)
     = Some False"
  by (simp add: after_def late_loop_def pause_joins_def late_loop_on_def model_defs
      counter_def recorder_def)

subsection \<open>Pause with a single loop, and a loop that sees a new handle\<close>

text \<open>
  What the race above breaks holds without it. When \<^verbatim>\<open>pause\<close> is called while the
  flag is clear, the handle names the only thread that can move and that thread has
  executed line 84, then in every interleaving \<^verbatim>\<open>pause\<close> returns only after that
  thread is over, with the flag set and the handle cleared, and afterwards nothing can
  move: no actor has a step pf left, so nothing is delivered.
\<close>

lemma lstep_frame:
  assumes "lstep pf T s = Some s'" "past84 (lpc (thr s T))"
  shows "cpc s' = cpc s" "prog s' = prog s" "ct s' = ct s" "paused (ds s') = paused (ds s)"
    "thread (ds s') = thread (ds s)" "past84 (lpc (thr s' T))" "\<not> terminated (lpc (thr s T))"
    "T' \<noteq> T \<Longrightarrow> thr s' T' = thr s T'"
  using assms
  by (auto simp: lstep_def goto_def past84_def terminated_def
      split: lpc.splits option.splits sum.splits prod.splits if_splits)

lemma pausing_lstep:
  assumes "pausing T s" "lstep pf T' s = Some s'"
  shows "pausing T s'"
proof (cases "T' = T")
  case False
  with assms(1) have "inert (lpc (thr s T'))" by (simp add: pausing_def)
  with assms(2) show ?thesis
    by (auto simp: inert_def terminated_def lstep_def split: lpc.splits)
next
  case True
  from assms(1) have p: "past84 (lpc (thr s T))" by (simp add: pausing_def)
  note f = lstep_frame [OF assms(2) [unfolded True] p]
  from assms(1) have "\<forall>T'. T' \<noteq> T \<longrightarrow> inert (lpc (thr s' T'))"
    by (simp add: pausing_def f(8))
  with assms(1) f(1-7) show ?thesis
    by (auto simp: pausing_def)
qed

lemma pausing_cstep:
  assumes "pausing T s" "cstep s = Some s'"
  shows "pausing T s'"
proof -
  from assms(1) have o: "\<forall>T'. T' \<noteq> T \<longrightarrow> inert (lpc (thr s T'))" and p: "past84 (lpc (thr s T))"
    by (simp_all add: pausing_def)
  from assms(1) consider
      (call) "cpc s = Idle" "prog s = [Pause]" "\<not> paused (ds s)" "thread (ds s) = Some T"
    | (l61) "cpc s = P61 False" "prog s = []" "\<not> paused (ds s)" "thread (ds s) = Some T"
    | (l62) "cpc s = P62 False" "prog s = []" "thread (ds s) = Some T"
    | (l63) "cpc s = P63 False" "prog s = []" "paused (ds s)" "thread (ds s) = Some T"
    | (l64) "cpc s = P64 False" "prog s = []" "paused (ds s)" "ct s = Some T"
    | (l65) "cpc s = P65 False" "prog s = []" "paused (ds s)" "terminated (lpc (thr s T))"
    | (ret) "cpc s = Idle" "prog s = []"
    unfolding pausing_def by blast
  then show ?thesis
  proof cases
    case call
    with assms(2) have "s' = s\<lparr>cpc := P61 False, prog := [], evs := evs s @ [Call Pause]\<rparr>"
      by (simp add: cstep_def)
    with o p call show ?thesis by (simp add: pausing_def)
  next
    case l61
    with assms(2) have "s' = s\<lparr>cpc := P62 False\<rparr>" by (simp add: cstep_def)
    with o p l61 show ?thesis by (simp add: pausing_def)
  next
    case l62
    with assms(2) have "s' = s\<lparr>ds := (ds s)\<lparr>paused := True\<rparr>, cpc := P63 False\<rparr>"
      by (simp add: cstep_def)
    with o p l62 show ?thesis by (simp add: pausing_def)
  next
    case l63
    with assms(2) have "s' = s\<lparr>ct := thread (ds s), cpc := P64 False\<rparr>" by (simp add: cstep_def)
    with o p l63 show ?thesis by (simp add: pausing_def)
  next
    case l64
    from p have "lpc (thr s T) \<noteq> Unstarted" by (simp add: past84_def)
    with l64 assms(2) have "terminated (lpc (thr s T))" "s' = s\<lparr>cpc := P65 False\<rparr>"
      by (auto simp: cstep_def split: if_splits)
    with o p l64 show ?thesis by (simp add: pausing_def)
  next
    case l65
    with assms(2)
    have "s' = s\<lparr>ds := (ds s)\<lparr>thread := None\<rparr>, cpc := Idle, evs := evs s @ [Return Pause]\<rparr>"
      by (simp add: cstep_def pause_return_def)
    with o p l65 show ?thesis by (simp add: pausing_def)
  next
    case ret
    with assms(2) show ?thesis by (simp add: cstep_def)
  qed
qed

lemma pause_barrier_one_loop:
  assumes "pausing T s0" "run pf sched s0 = Some s" "cpc s = Idle" "prog s = []"
  shows "paused (ds s) \<and> thread (ds s) = None \<and> (\<forall>T'. inert (lpc (thr s T'))) \<and>
         (\<forall>a. step pf a s = None)"
proof -
  have "pausing T s"
  proof (rule run_invariant [where I = "pausing T"])
    show "pausing T s0" by (rule assms(1))
    show "run pf sched s0 = Some s" by (rule assms(2))
  next
    fix a and s s' :: "('a, 'b) sys"
    assume "pausing T s" "step pf a s = Some s'"
    then show "pausing T s'"
      by (cases a) (auto simp: step_def intro: pausing_cstep pausing_lstep)
  qed
  with assms(3,4) have r: "paused (ds s)" "thread (ds s) = None" "terminated (lpc (thr s T))"
    and o: "\<forall>T'. T' \<noteq> T \<longrightarrow> inert (lpc (thr s T'))"
    by (auto simp: pausing_def)
  have i: "inert (lpc (thr s T'))" for T'
    using r(3) o by (cases "T' = T") (auto simp: inert_def)
  have "step pf a s = None" for a
  proof (cases a)
    case Ctl
    with assms(3,4) show ?thesis by (simp add: step_def cstep_def)
  next
    case (Thr T')
    with i [of T'] show ?thesis
      by (auto simp: step_def lstep_def inert_def terminated_def split: lpc.splits)
  qed
  with r i show ?thesis by blast
qed


lemma pausing_looping: "pausing 0 ((looping r)\<lparr>prog := [Pause]\<rparr>)"
  by (simp add: pausing_def looping_def boot_def init_def inert_def past84_def)

text \<open>
  A loop thread that finds at line 87 a handle other than the one it read at line 85
  logs the warning and leaves the loop without pulling or delivering anything.
\<close>

lemma superseded_exits:
  assumes "lpc (thr s T) = L87" "lt (thr s T) \<noteq> thread (ds s)"
  shows "step pf (Thr T) s = Some (goto T Exited (s\<lparr>evs := evs s @ [Warn T]\<rparr>))"
    and "sends (evs (goto T Exited (s\<lparr>evs := evs s @ [Warn T]\<rparr>))) = sends (evs s)"
    and "step pf (Thr T) (goto T Exited (s\<lparr>evs := evs s @ [Warn T]\<rparr>)) = None"
  using assms by (simp_all add: step_def lstep_def goto_def sends_append)

end
